theory Spec2Isabelle
  imports Main
begin

section \<open>Data model\<close>

text \<open>
  A node of the flow editor. The run request copies \<open>id\<close>, \<open>type\<close>, \<open>data\<close> and
  \<open>position\<close>; \<open>node_selected\<close> stands for the editor-only properties that are not copied.
  The data payload and the position are opaque to the code and stay type parameters.
\<close>

record ('d, 'p) node =
  node_id :: string
  node_type :: "string option"
  node_data :: 'd
  node_position :: 'p
  node_selected :: bool

record edge =
  edge_id :: string
  source :: string
  target :: string

text \<open>
  An object as \<open>handlePlay\<close> reads it: through its properties \<open>model_name\<close> and
  \<open>provider\<close>, each \<open>None\<close> when the object has no such property (the read gives
  \<open>undefined\<close>). A model descriptor has both; a function has neither.
\<close>

record model_descr =
  md_model_name :: "string option"
  provider :: "string option"

text \<open>What a property read on the model table can give.\<close>

datatype js_value = Undefined | Null | Object model_descr

text \<open>
  The table that \<open>getAllAgentModels\<close> returns is a JavaScript object indexed by node id:
  its own properties (the assignments) and the properties it inherits from its prototype
  chain. \<open>allAgentModels[key]\<close> finds an own property first, then an inherited one, and
  gives \<open>undefined\<close> when there is neither.
\<close>

record model_table =
  own :: "string \<Rightarrow> js_value option"
  inherited :: "string \<Rightarrow> js_value option"

definition read_property :: "model_table \<Rightarrow> string \<Rightarrow> js_value" where
  "read_property obj key =
     (case own obj key of
        Some v \<Rightarrow> v
      | None \<Rightarrow> (case inherited obj key of Some v \<Rightarrow> v | None \<Rightarrow> Undefined))"

text \<open>The test of \<open>if (model)\<close>: \<open>undefined\<close> and \<open>null\<close> are falsy, every object is truthy.\<close>

fun truthy :: "js_value \<Rightarrow> bool" where
  "truthy Undefined = False"
| "truthy Null = False"
| "truthy (Object m) = True"

text \<open>
  What every object literal inherits from \<open>Object.prototype\<close>: its methods, which are
  function objects, and the accessor \<open>__proto__\<close>, which gives the prototype object
  itself; none of them has a \<open>model_name\<close> or a \<open>provider\<close>.
\<close>

definition Object_prototype :: "string \<Rightarrow> js_value option" where
  "Object_prototype key =
     (if key \<in> set [''constructor'', ''hasOwnProperty'', ''isPrototypeOf'',
                     ''propertyIsEnumerable'', ''toLocaleString'', ''toString'', ''valueOf'',
                     ''__defineGetter__'', ''__defineSetter__'', ''__lookupGetter__'',
                     ''__lookupSetter__'', ''__proto__'']
      then Some (Object \<lparr>md_model_name = None, provider = None\<rparr>)
      else None)"

text \<open>The object literal with the given own properties.\<close>

definition plain_object :: "(string \<Rightarrow> js_value option) \<Rightarrow> model_table" where
  "plain_object props = \<lparr>own = props, inherited = Object_prototype\<rparr>"

text \<open>An element of \<open>agent_models\<close> in the request.\<close>

record agent_model =
  agent_id :: string
  am_model_name :: "string option"
  am_model_provider :: "string option"

text \<open>An element of \<open>graph_nodes\<close> in the request.\<close>

record ('d, 'p) graph_node =
  gn_id :: string
  gn_type :: "string option"
  gn_data :: 'd
  gn_position :: 'p

text \<open>The argument of \<open>runFlow\<close>; \<open>undefined\<close> is \<open>None\<close>.\<close>

record ('d, 'p) run_request =
  tickers :: "string list"
  graph_nodes :: "('d, 'p) graph_node list"
  graph_edges :: "edge list"
  agent_models :: "agent_model list"
  model_name :: "string option"
  model_provider :: "string option"

section \<open>JavaScript sets of strings\<close>

text \<open>
  A \<open>Set<string>\<close> keeps its elements in insertion order, each once: a list to which
  \<open>add\<close> appends an element that is not there yet.
\<close>

definition has :: "string list \<Rightarrow> string \<Rightarrow> bool" where
  "has s x = (x \<in> set s)"

definition add :: "string \<Rightarrow> string list \<Rightarrow> string list" where
  "add x s = (if has s x then s else s @ [x])"

definition new_Set :: "string list \<Rightarrow> string list" where
  "new_Set xs = fold add xs []"

section \<open>The traversal of \<open>handlePlay\<close>\<close>

text \<open>The two sets that the closure \<open>dfs\<close> updates.\<close>

record dfs_state =
  visited :: "string list"
  reachableNodes :: "string list"

text \<open>
  \<open>dfs\<close> is the recursive closure of \<open>handlePlay\<close>, with the captured \<open>allEdges\<close> and
  \<open>id\<close> (here \<open>ident\<close>) as parameters and the two sets passed through;
  \<open>dfs_for\<close> is its \<open>for (const edge of outgoingEdges)\<close> loop.
\<close>

function (domintros)
  dfs :: "edge list \<Rightarrow> string \<Rightarrow> dfs_state \<Rightarrow> string \<Rightarrow> dfs_state"
  and dfs_for :: "edge list \<Rightarrow> string \<Rightarrow> dfs_state \<Rightarrow> edge list \<Rightarrow> dfs_state"
where
  "dfs allEdges ident st nodeId =
     (if has (visited st) nodeId then st
      else
        let st1 = st\<lparr>visited := add nodeId (visited st)\<rparr>;
            st2 = (if nodeId \<noteq> ident
                   then st1\<lparr>reachableNodes := add nodeId (reachableNodes st1)\<rparr>
                   else st1);
            outgoingEdges = filter (\<lambda>edge. source edge = nodeId) allEdges
        in dfs_for allEdges ident st2 outgoingEdges)"
| "dfs_for allEdges ident st [] = st"
| "dfs_for allEdges ident st (edge # rest) =
     dfs_for allEdges ident (dfs allEdges ident st (target edge)) rest"
  by pat_completeness auto

section \<open>The subgraph and the request\<close>

text \<open>The state of the two sets after the call \<open>dfs(id)\<close>.\<close>

definition traversal :: "edge list \<Rightarrow> string \<Rightarrow> dfs_state" where
  "traversal allEdges ident =
     dfs allEdges ident \<lparr>visited = [], reachableNodes = []\<rparr> ident"

definition startNode :: "('d, 'p) node list \<Rightarrow> string \<Rightarrow> ('d, 'p) node option" where
  "startNode allNodes ident = find (\<lambda>node. node_id node = ident) allNodes"

definition agentNodes ::
  "('d, 'p) node list \<Rightarrow> edge list \<Rightarrow> string \<Rightarrow> ('d, 'p) node list" where
  "agentNodes allNodes allEdges ident =
     (case startNode allNodes ident of Some n \<Rightarrow> [n] | None \<Rightarrow> [])
     @ filter (\<lambda>node. has (reachableNodes (traversal allEdges ident)) (node_id node)) allNodes"

definition reachableNodeIds :: "edge list \<Rightarrow> string \<Rightarrow> string list" where
  "reachableNodeIds allEdges ident =
     new_Set (ident # reachableNodes (traversal allEdges ident))"

definition validEdges :: "edge list \<Rightarrow> string \<Rightarrow> edge list" where
  "validEdges allEdges ident =
     filter (\<lambda>edge. has (reachableNodeIds allEdges ident) (source edge)
                   \<and> has (reachableNodeIds allEdges ident) (target edge)) allEdges"

text \<open>
  The loop that collects the agent models: \<open>allAgentModels[node.id]\<close> is a property read
  on the table, \<open>if (model)\<close> tests the value read, \<open>model.model_name\<close> and
  \<open>model.provider\<close> read the two properties of that value, and \<open>push\<close> appends.
\<close>

definition agentModels :: "model_table \<Rightarrow> ('d, 'p) node list \<Rightarrow> agent_model list" where
  "agentModels allAgentModels nodes =
     fold (\<lambda>node acc.
             case read_property allAgentModels (node_id node) of
               Object model \<Rightarrow>
                 acc @ [\<lparr>agent_id = node_id node,
                         am_model_name = md_model_name model,
                         am_model_provider = provider model\<rparr>]
             | Undefined \<Rightarrow> acc
             | Null \<Rightarrow> acc)
          nodes []"

definition to_graph_node :: "('d, 'p) node \<Rightarrow> ('d, 'p) graph_node" where
  "to_graph_node node =
     \<lparr>gn_id = node_id node, gn_type = node_type node,
      gn_data = node_data node, gn_position = node_position node\<rparr>"

text \<open>The object that \<open>handlePlay\<close> passes to \<open>runFlow\<close>.\<close>

definition runRequest ::
  "('d, 'p) node list \<Rightarrow> edge list \<Rightarrow> string \<Rightarrow> model_table
     \<Rightarrow> ('d, 'p) run_request" where
  "runRequest allNodes allEdges ident allAgentModels =
     \<lparr>tickers = [],
      graph_nodes = map to_graph_node (agentNodes allNodes allEdges ident),
      graph_edges = validEdges allEdges ident,
      agent_models = agentModels allAgentModels (agentNodes allNodes allEdges ident),
      model_name = None,
      model_provider = None\<rparr>"

section \<open>The handler and its collaborators\<close>

text \<open>
  What \<open>handlePlay\<close> reads and writes outside itself: the editor's nodes and edges,
  the model table of each flow, the bottom panel, and the requests handed to the runner.
\<close>

record ('d, 'p) world =
  flow_nodes :: "('d, 'p) node list"
  flow_edges :: "edge list"
  flow_agent_models :: "string option \<Rightarrow> model_table"
  bottomPanelExpanded :: bool
  bottomPanelTab :: string
  runFlow_calls :: "('d, 'p) run_request list"

text \<open>
  Modelled from the spec: the hooks \<open>useReactFlow\<close>, \<open>useNodeContext\<close>,
  \<open>useLayoutContext\<close> and \<open>useFlowConnection\<close> are imported by the component and not
  part of it. The graph provider supplies the nodes and edges as of the trigger moment,
  the model resolver is keyed by flow, the layout calls reveal the output view, and
  the dispatcher receives the finished request.
\<close>

definition getNodes :: "('d, 'p) world \<Rightarrow> ('d, 'p) node list" where
  "getNodes w = flow_nodes w"

definition getEdges :: "('d, 'p) world \<Rightarrow> edge list" where
  "getEdges w = flow_edges w"

definition getAllAgentModels ::
  "('d, 'p) world \<Rightarrow> string option \<Rightarrow> model_table" where
  "getAllAgentModels w flowId = flow_agent_models w flowId"

definition expandBottomPanel :: "('d, 'p) world \<Rightarrow> ('d, 'p) world" where
  "expandBottomPanel w = w\<lparr>bottomPanelExpanded := True\<rparr>"

definition setBottomPanelTab :: "string \<Rightarrow> ('d, 'p) world \<Rightarrow> ('d, 'p) world" where
  "setBottomPanelTab tab w = w\<lparr>bottomPanelTab := tab\<rparr>"

definition runFlow :: "('d, 'p) run_request \<Rightarrow> ('d, 'p) world \<Rightarrow> ('d, 'p) world" where
  "runFlow request w = w\<lparr>runFlow_calls := runFlow_calls w @ [request]\<rparr>"

text \<open>\<open>handlePlay\<close> of the start node \<open>ident\<close> in the flow \<open>flowId\<close>.\<close>

definition handlePlay :: "string \<Rightarrow> string option \<Rightarrow> ('d, 'p) world \<Rightarrow> ('d, 'p) world" where
  "handlePlay ident flowId w =
     (let w1 = expandBottomPanel w;
          w2 = setBottomPanelTab ''output'' w1;
          allNodes = getNodes w2;
          allEdges = getEdges w2;
          allAgentModels = getAllAgentModels w2 flowId
      in runFlow (runRequest allNodes allEdges ident allAgentModels) w2)"

section \<open>Notions of the specification\<close>

text \<open>The directed graph of the edge list: an edge leads from its source id to its target id.\<close>

definition edge_rel :: "edge list \<Rightarrow> (string \<times> string) set" where
  "edge_rel es = (\<lambda>e. (source e, target e)) ` set es"

text \<open>
  The node list as the data model of the specification words it: the start node first,
  then the reachable nodes in the order in which the traversal discovered their ids
  (the insertion order of \<open>reachableNodes\<close>).
\<close>

definition spec_discovery_order_nodes ::
  "('d, 'p) node list \<Rightarrow> edge list \<Rightarrow> string \<Rightarrow> ('d, 'p) node list" where
  "spec_discovery_order_nodes allNodes allEdges ident =
     (case startNode allNodes ident of Some n \<Rightarrow> [n] | None \<Rightarrow> [])
     @ concat (map (\<lambda>i. filter (\<lambda>node. node_id node = i) allNodes)
                   (reachableNodes (traversal allEdges ident)))"

text \<open>
  The model lookup of the specification, a node id to a descriptor or nothing: what the
  table assigns to the id, that is, the object among its own properties.
\<close>

definition modelLookup :: "model_table \<Rightarrow> string \<Rightarrow> model_descr option" where
  "modelLookup allAgentModels nodeId =
     (case own allAgentModels nodeId of Some (Object m) \<Rightarrow> Some m | _ \<Rightarrow> None)"

text \<open>
  The assignment list as the specification words it: in node order, one entry for each
  node for which the lookup returns a descriptor, none for the others.
\<close>

definition spec_assignment_list ::
  "model_table \<Rightarrow> ('d, 'p) node list \<Rightarrow> agent_model list" where
  "spec_assignment_list allAgentModels nodes =
     concat (map (\<lambda>node.
                    case modelLookup allAgentModels (node_id node) of
                      Some m \<Rightarrow> [\<lparr>agent_id = node_id node,
                                  am_model_name = md_model_name m,
                                  am_model_provider = provider m\<rparr>]
                    | None \<Rightarrow> [])
                 nodes)"

text \<open>
  What a call of \<open>dfs\<close> or of its loop from the state \<open>st\<close> on the ids \<open>R\<close> has done
  when it returns \<open>st'\<close>: nothing visited is forgotten, the ids of \<open>R\<close> are visited,
  what is new was reached from \<open>R\<close>, every new id has had all its successors visited,
  and the new ids other than the start id are exactly what \<open>reachableNodes\<close> gained.
\<close>

definition dfs_post ::
  "(string \<times> string) set \<Rightarrow> string \<Rightarrow> dfs_state \<Rightarrow> dfs_state \<Rightarrow> string set \<Rightarrow> bool" where
  "dfs_post E ident st st' R \<longleftrightarrow>
     set (visited st) \<subseteq> set (visited st') \<and>
     R \<subseteq> set (visited st') \<and>
     set (visited st') \<subseteq> set (visited st) \<union> E\<^sup>* `` R \<and>
     (\<forall>x \<in> set (visited st') - set (visited st). E `` {x} \<subseteq> set (visited st')) \<and>
     set (reachableNodes st') =
       set (reachableNodes st) \<union> (set (visited st') - set (visited st) - {ident})"

section \<open>Example graphs\<close>

text \<open>A node and an edge with the given ids, for the concrete graphs below.\<close>

definition mk_node :: "string \<Rightarrow> (unit, unit) node" where
  "mk_node i = \<lparr>node_id = i, node_type = None, node_data = (), node_position = (),
                node_selected = False\<rparr>"

definition mk_edge :: "string \<Rightarrow> string \<Rightarrow> edge" where
  "mk_edge a b = \<lparr>edge_id = a @ ''-'' @ b, source = a, target = b\<rparr>"

text \<open>The two measures of the termination proof.\<close>

definition unvisited ::
  "(edge list \<times> string \<times> dfs_state \<times> string) + (edge list \<times> string \<times> dfs_state \<times> edge list)
     \<Rightarrow> nat" where
  "unvisited c = (case c of
       Inl (es, ident, st, n) \<Rightarrow> card (insert n (target ` set es) - set (visited st))
     | Inr (es, ident, st, ts) \<Rightarrow>
         card ((target ` set es \<union> target ` set ts) - set (visited st)))"

definition pending ::
  "(edge list \<times> string \<times> dfs_state \<times> string) + (edge list \<times> string \<times> dfs_state \<times> edge list)
     \<Rightarrow> nat" where
  "pending c = (case c of Inl _ \<Rightarrow> 0 | Inr (es, ident, st, ts) \<Rightarrow> Suc (length ts))"

section \<open>Termination of the traversal\<close>

text \<open>
  Termination: a call of \<open>dfs\<close> on an unvisited id marks it, so the number of ids
  that are still unvisited (among the edge targets and the ids at hand) goes down;
  the loop keeps that number and shortens its list. The loop continues from the
  state its first call returned, so the proof needs that a call never forgets a
  visited id.
\<close>

lemma set_add: "set (add x s) = insert x (set s)"
  by (auto simp: add_def has_def)

lemma dfs_visited_mono_dom:
  "dfs_dfs_for_dom (Inl (es, ident, st, n)) \<Longrightarrow>
      set (visited st) \<subseteq> set (visited (dfs es ident st n))"
  and dfs_for_visited_mono_dom:
  "dfs_dfs_for_dom (Inr (es, ident, st', ts)) \<Longrightarrow>
      set (visited st') \<subseteq> set (visited (dfs_for es ident st' ts))"
proof (induct es ident st n and es ident st' ts rule: dfs_dfs_for.pinduct)
  case (1 allEdges ident st nodeId)
  show ?case
  proof (cases "has (visited st) nodeId")
    case True
    then show ?thesis using 1(1) by (simp add: dfs.psimps)
  next
    case False
    from 1(2)[OF False refl refl refl] False 1(1)
    show ?thesis
      by (auto simp: dfs.psimps Let_def set_add split: if_splits)
  qed
next
  case (2 allEdges ident st)
  then show ?case by (simp add: dfs_for.psimps)
next
  case (3 allEdges ident st edge rest)
  then show ?case by (auto simp: dfs_for.psimps)
qed

termination dfs
proof (relation "measures [unvisited, pending]")
  show "wf (measures [unvisited, pending])" by simp
next
  fix allEdges :: "edge list" and ident nodeId :: string
    and st x xa :: dfs_state and xb :: "edge list"
  assume a: "\<not> has (visited st) nodeId"
     "x = st\<lparr>visited := add nodeId (visited st)\<rparr>"
     "xa = (if nodeId \<noteq> ident then x\<lparr>reachableNodes := add nodeId (reachableNodes x)\<rparr> else x)"
     "xb = filter (\<lambda>edge. source edge = nodeId) allEdges"
  have v: "set (visited xa) = insert nodeId (set (visited st))"
    using a by (auto simp: set_add)
  have "(target ` set allEdges \<union> target ` set xb) - set (visited xa)
        \<subset> insert nodeId (target ` set allEdges) - set (visited st)"
    using a(1) a(4) unfolding v has_def by auto
  then have "card ((target ` set allEdges \<union> target ` set xb) - set (visited xa))
        < card (insert nodeId (target ` set allEdges) - set (visited st))"
    by (intro psubset_card_mono) auto
  then show "(Inr (allEdges, ident, xa, xb), Inl (allEdges, ident, st, nodeId))
      \<in> measures [unvisited, pending]"
    by (simp add: unvisited_def)
next
  fix allEdges rest :: "edge list" and ident :: string and st :: dfs_state and edge :: edge
  have "card (insert (target edge) (target ` set allEdges) - set (visited st))
      \<le> card ((target ` set allEdges \<union> target ` set (edge # rest)) - set (visited st))"
    by (intro card_mono) auto
  then show "(Inl (allEdges, ident, st, target edge), Inr (allEdges, ident, st, edge # rest))
      \<in> measures [unvisited, pending]"
    by (auto simp: unvisited_def pending_def)
next
  fix allEdges rest :: "edge list" and ident :: string and st :: dfs_state and edge :: edge
  assume d: "dfs_dfs_for_dom (Inl (allEdges, ident, st, target edge))"
  have m: "set (visited st) \<subseteq> set (visited (dfs allEdges ident st (target edge)))"
    by (rule dfs_visited_mono_dom[OF d])
  have "card ((target ` set allEdges \<union> target ` set rest)
          - set (visited (dfs allEdges ident st (target edge))))
      \<le> card ((target ` set allEdges \<union> target ` set (edge # rest)) - set (visited st))"
    using m by (intro card_mono) auto
  then show "(Inr (allEdges, ident, dfs allEdges ident st (target edge), rest),
        Inr (allEdges, ident, st, edge # rest)) \<in> measures [unvisited, pending]"
    by (auto simp: unvisited_def pending_def)
qed

declare dfs.simps [simp del]

text \<open>Every call is in the accessible part of the call relation.\<close>

lemma dfs_dom: "dfs_dfs_for_dom (Inl (es, ident, st, n))"
  and dfs_for_dom: "dfs_dfs_for_dom (Inr (es, ident, st', ts))"
proof (induct es ident st n and es ident st' ts rule: dfs_dfs_for.induct)
  case (1 allEdges ident st nodeId)
  show ?case
    by (rule dfs_dfs_for.domintros(1)) (use 1 in auto)
next
  case (2 allEdges ident st)
  show ?case by (rule dfs_dfs_for.domintros(2))
next
  case (3 allEdges ident st edge rest)
  then show ?case by (auto intro: dfs_dfs_for.domintros(3))
qed

section \<open>What the traversal computes\<close>

lemma dfs_post_skip: "R \<subseteq> set (visited st) \<Longrightarrow> dfs_post E ident st st R"
  by (auto simp: dfs_post_def)

lemma dfs_post_enter:
  assumes n: "n \<notin> set (visited st)"
    and v: "set (visited st2) = insert n (set (visited st))"
    and r: "set (reachableNodes st2) = set (reachableNodes st) \<union> ({n} - {ident})"
    and p: "dfs_post E ident st2 st' (E `` {n})"
  shows "dfs_post E ident st st' {n}"
proof -
  let ?V = "set (visited st)" and ?V' = "set (visited st')"
  have p1: "insert n ?V \<subseteq> ?V'"
    and p2: "E `` {n} \<subseteq> ?V'"
    and p3: "?V' \<subseteq> insert n ?V \<union> E\<^sup>* `` (E `` {n})"
    and p4: "\<And>x. x \<in> ?V' \<Longrightarrow> x \<notin> insert n ?V \<Longrightarrow> E `` {x} \<subseteq> ?V'"
    and p5: "set (reachableNodes st') =
       set (reachableNodes st) \<union> ({n} - {ident}) \<union> (?V' - insert n ?V - {ident})"
    using p unfolding dfs_post_def v r by blast+
  have sub: "E\<^sup>* `` (E `` {n}) \<subseteq> E\<^sup>* `` {n}"
    by (auto intro: converse_rtrancl_into_rtrancl)
  have c1: "?V \<subseteq> ?V'" using p1 by blast
  have c2: "{n} \<subseteq> ?V'" using p1 by blast
  have c3: "?V' \<subseteq> ?V \<union> E\<^sup>* `` {n}" using p3 sub by blast
  have c4: "\<forall>x \<in> ?V' - ?V. E `` {x} \<subseteq> ?V'"
  proof
    fix x assume "x \<in> ?V' - ?V"
    then show "E `` {x} \<subseteq> ?V'" using p2 p4[of x] by (cases "x = n") auto
  qed
  have c5: "set (reachableNodes st') = set (reachableNodes st) \<union> (?V' - ?V - {ident})"
    unfolding p5 using n p1 by blast
  show ?thesis unfolding dfs_post_def using c1 c2 c3 c4 c5 by (intro conjI)
qed

lemma dfs_post_seq:
  assumes a: "dfs_post E ident st st1 {t}" and b: "dfs_post E ident st1 st' R"
  shows "dfs_post E ident st st' (insert t R)"
proof -
  let ?V = "set (visited st)" and ?V1 = "set (visited st1)" and ?V' = "set (visited st')"
  have a1: "?V \<subseteq> ?V1" and a2: "t \<in> ?V1" and a3: "?V1 \<subseteq> ?V \<union> E\<^sup>* `` {t}"
    and a4: "\<And>x. x \<in> ?V1 \<Longrightarrow> x \<notin> ?V \<Longrightarrow> E `` {x} \<subseteq> ?V1"
    and a5: "set (reachableNodes st1) = set (reachableNodes st) \<union> (?V1 - ?V - {ident})"
    using a unfolding dfs_post_def by blast+
  have b1: "?V1 \<subseteq> ?V'" and b2: "R \<subseteq> ?V'" and b3: "?V' \<subseteq> ?V1 \<union> E\<^sup>* `` R"
    and b4: "\<And>x. x \<in> ?V' \<Longrightarrow> x \<notin> ?V1 \<Longrightarrow> E `` {x} \<subseteq> ?V'"
    and b5: "set (reachableNodes st') = set (reachableNodes st1) \<union> (?V' - ?V1 - {ident})"
    using b unfolding dfs_post_def by blast+
  have m: "E\<^sup>* `` {t} \<subseteq> E\<^sup>* `` insert t R" "E\<^sup>* `` R \<subseteq> E\<^sup>* `` insert t R" by auto
  have c1: "?V \<subseteq> ?V'" using a1 b1 by blast
  have c2: "insert t R \<subseteq> ?V'" using a2 b1 b2 by blast
  have c3: "?V' \<subseteq> ?V \<union> E\<^sup>* `` insert t R" using a3 b3 m by blast
  have c4: "\<forall>x \<in> ?V' - ?V. E `` {x} \<subseteq> ?V'"
  proof
    fix x assume x: "x \<in> ?V' - ?V"
    show "E `` {x} \<subseteq> ?V'"
    proof (cases "x \<in> ?V1")
      case True
      then have "E `` {x} \<subseteq> ?V1" using a4[of x] x by simp
      then show ?thesis using b1 by blast
    next
      case False
      then show ?thesis using b4[of x] x by simp
    qed
  qed
  have c5: "set (reachableNodes st') = set (reachableNodes st) \<union> (?V' - ?V - {ident})"
    unfolding b5 a5 using a1 b1 by blast
  show ?thesis unfolding dfs_post_def using c1 c2 c3 c4 c5 by (intro conjI)
qed

lemma dfs_post_dfs:
  "dfs_post (edge_rel es) ident st (dfs es ident st n) {n}"
  and dfs_post_dfs_for:
  "dfs_post (edge_rel es) ident st' (dfs_for es ident st' ts) (target ` set ts)"
proof (induct es ident st n and es ident st' ts rule: dfs_dfs_for.induct)
  case (1 allEdges ident st nodeId)
  show ?case
  proof (cases "has (visited st) nodeId")
    case True
    then show ?thesis by (simp add: dfs.simps dfs_post_skip has_def)
  next
    case False
    define st1 where "st1 = st\<lparr>visited := add nodeId (visited st)\<rparr>"
    define st2 where "st2 = (if nodeId \<noteq> ident
                   then st1\<lparr>reachableNodes := add nodeId (reachableNodes st1)\<rparr>
                   else st1)"
    define outgoingEdges where "outgoingEdges = filter (\<lambda>edge. source edge = nodeId) allEdges"
    have ih: "dfs_post (edge_rel allEdges) ident st2 (dfs_for allEdges ident st2 outgoingEdges)
        (target ` set outgoingEdges)"
      using 1[OF False st1_def st2_def outgoingEdges_def] .
    have tg: "target ` set outgoingEdges = edge_rel allEdges `` {nodeId}"
      by (auto simp: outgoingEdges_def edge_rel_def image_iff)
    have d: "dfs allEdges ident st nodeId = dfs_for allEdges ident st2 outgoingEdges"
      using False by (simp add: dfs.simps st1_def st2_def outgoingEdges_def Let_def)
    show ?thesis unfolding d
    proof (rule dfs_post_enter)
      show "nodeId \<notin> set (visited st)" using False by (simp add: has_def)
      show "set (visited st2) = insert nodeId (set (visited st))"
        by (simp add: st2_def st1_def set_add)
      show "set (reachableNodes st2) = set (reachableNodes st) \<union> ({nodeId} - {ident})"
        by (auto simp: st2_def st1_def set_add)
      show "dfs_post (edge_rel allEdges) ident st2 (dfs_for allEdges ident st2 outgoingEdges)
          (edge_rel allEdges `` {nodeId})"
        using ih unfolding tg .
    qed
  qed
next
  case (2 allEdges ident st)
  show ?case by (simp add: dfs_post_skip)
next
  case (3 allEdges ident st edge rest)
  then show ?case by (simp add: dfs_post_seq)
qed

lemma traversal_visited:
  "set (visited (traversal es s)) = (edge_rel es)\<^sup>* `` {s}"
proof -
  let ?E = "edge_rel es"
  let ?V = "set (visited (traversal es s))"
  have p: "dfs_post ?E s \<lparr>visited = [], reachableNodes = []\<rparr> (traversal es s) {s}"
    unfolding traversal_def by (rule dfs_post_dfs)
  have s: "s \<in> ?V" and up: "?V \<subseteq> ?E\<^sup>* `` {s}"
    and cl: "\<And>x y. x \<in> ?V \<Longrightarrow> (x, y) \<in> ?E \<Longrightarrow> y \<in> ?V"
    using p unfolding dfs_post_def by auto
  have "y \<in> ?V" if "(s, y) \<in> ?E\<^sup>*" for y
    using that by (induct rule: rtrancl_induct) (auto intro: s cl)
  with up show ?thesis by auto
qed

lemma traversal_reachableNodes:
  "set (reachableNodes (traversal es s)) = (edge_rel es)\<^sup>* `` {s} - {s}"
proof -
  have p: "dfs_post (edge_rel es) s \<lparr>visited = [], reachableNodes = []\<rparr> (traversal es s) {s}"
    unfolding traversal_def by (rule dfs_post_dfs)
  then have "set (reachableNodes (traversal es s)) = set (visited (traversal es s)) - {s}"
    unfolding dfs_post_def by simp
  then show ?thesis by (simp add: traversal_visited)
qed

section \<open>The subgraph in terms of paths\<close>

lemma set_new_Set: "set (new_Set xs) = set xs"
proof -
  have "set (fold add xs acc) = set acc \<union> set xs" for acc
    by (induction xs arbitrary: acc) (auto simp: set_add)
  then show ?thesis by (simp add: new_Set_def)
qed

lemma has_reachableNodes:
  "has (reachableNodes (traversal es s)) x \<longleftrightarrow> x \<noteq> s \<and> (s, x) \<in> (edge_rel es)\<^sup>+"
  unfolding has_def traversal_reachableNodes
  by (auto simp: rtrancl_eq_or_trancl)

lemma has_reachableNodeIds:
  "has (reachableNodeIds es s) x \<longleftrightarrow> (s, x) \<in> (edge_rel es)\<^sup>*"
  unfolding has_def reachableNodeIds_def set_new_Set
  by (auto simp: traversal_reachableNodes)

lemma agentNodes_paths:
  "agentNodes allNodes allEdges s =
     (case find (\<lambda>n. node_id n = s) allNodes of Some n \<Rightarrow> [n] | None \<Rightarrow> [])
     @ filter (\<lambda>n. node_id n \<noteq> s \<and> (s, node_id n) \<in> (edge_rel allEdges)\<^sup>+) allNodes"
  by (simp add: agentNodes_def startNode_def has_reachableNodes)

lemma validEdges_paths:
  "validEdges allEdges s =
     filter (\<lambda>e. (s, source e) \<in> (edge_rel allEdges)\<^sup>* \<and> (s, target e) \<in> (edge_rel allEdges)\<^sup>*)
       allEdges"
  by (simp add: validEdges_def has_reachableNodeIds)

section \<open>Auxiliary facts about the output\<close>

text \<open>Unfolding a run of the handler on a concrete graph.\<close>

lemmas run_defs = agentNodes_def startNode_def validEdges_def reachableNodeIds_def new_Set_def
  traversal_def dfs.simps has_def add_def Let_def mk_node_def mk_edge_def

lemma find_distinct_key:
  "distinct (map f xs) \<Longrightarrow> x \<in> set xs \<Longrightarrow> find (\<lambda>y. f y = f x) xs = Some x"
  by (induction xs) (auto simp: image_iff)

lemma mem_agentNodes:
  assumes "distinct (map node_id allNodes)" and "n \<in> set allNodes"
  shows "n \<in> set (agentNodes allNodes allEdges s)
         \<longleftrightarrow> node_id n = s \<or> (s, node_id n) \<in> (edge_rel allEdges)\<^sup>+"
proof (cases "node_id n = s")
  case True
  then have "find (\<lambda>y. node_id y = s) allNodes = Some n"
    using find_distinct_key[OF assms] by simp
  then show ?thesis using True by (simp add: agentNodes_paths)
next
  case False
  have "find (\<lambda>y. node_id y = s) allNodes \<noteq> Some n"
    using False by (auto simp: find_Some_iff)
  then show ?thesis using False assms(2)
    by (auto simp: agentNodes_paths split: option.splits)
qed

lemma reached_is_start_or_target:
  "(s, x) \<in> (edge_rel es)\<^sup>* \<Longrightarrow> x = s \<or> x \<in> target ` set es"
  by (erule rtranclE) (auto simp: edge_rel_def)

lemma reached_id_in_output:
  assumes r: "(s, x) \<in> (edge_rel allEdges)\<^sup>*" and x: "x \<in> node_id ` set allNodes"
  shows "x \<in> node_id ` set (agentNodes allNodes allEdges s)"
proof (cases "x = s")
  case True
  from x obtain n where n: "n \<in> set allNodes" "node_id n = s" using True by auto
  then have "find (\<lambda>y. node_id y = s) allNodes \<noteq> None"
    by (auto simp: find_None_iff)
  then obtain a where a: "find (\<lambda>y. node_id y = s) allNodes = Some a" by auto
  then have "node_id a = s" by (auto simp: find_Some_iff)
  then show ?thesis using a True by (auto simp: agentNodes_paths image_iff)
next
  case False
  from x obtain n where n: "n \<in> set allNodes" "node_id n = x" by auto
  have "(s, x) \<in> (edge_rel allEdges)\<^sup>+" using r False by (auto simp: rtrancl_eq_or_trancl)
  then have "n \<in> set (agentNodes allNodes allEdges s)"
    using n False by (simp add: agentNodes_paths)
  then show ?thesis using n by force
qed

lemma output_id_is_start_or_reached:
  assumes "x \<in> node_id ` set (agentNodes allNodes allEdges s)"
  shows "x = s \<or> (s, x) \<in> (edge_rel allEdges)\<^sup>+"
proof -
  from assms obtain m where m: "m \<in> set (agentNodes allNodes allEdges s)" "node_id m = x"
    by auto
  then show ?thesis
    by (auto simp: agentNodes_paths find_Some_iff find_Some_iff2 split: option.splits)
qed

lemma count_list_distinct:
  "distinct xs \<Longrightarrow> x \<in> set xs \<Longrightarrow> count_list xs x = 1"
  by (induction xs) auto

lemma agentNodes_ids_distinct:
  assumes "distinct (map node_id allNodes)"
  shows "distinct (map node_id (agentNodes allNodes allEdges s))"
proof (cases "find (\<lambda>n. node_id n = s) allNodes")
  case None
  then show ?thesis using assms by (simp add: agentNodes_paths distinct_map_filter)
next
  case (Some a)
  then have "node_id a = s" by (auto simp: find_Some_iff)
  then show ?thesis using assms Some by (auto simp: agentNodes_paths distinct_map_filter)
qed

lemma start_id_once:
  assumes "s \<in> node_id ` set allNodes"
  shows "count_list (map node_id (agentNodes allNodes allEdges s)) s = 1"
proof -
  from assms have "find (\<lambda>y. node_id y = s) allNodes \<noteq> None"
    by (auto simp: find_None_iff)
  then obtain a where a: "find (\<lambda>y. node_id y = s) allNodes = Some a" by auto
  then have "node_id a = s" by (auto simp: find_Some_iff)
  moreover have "s \<notin> set (map node_id
      (filter (\<lambda>n. node_id n \<noteq> s \<and> (s, node_id n) \<in> (edge_rel allEdges)\<^sup>+) allNodes))"
    by auto
  ultimately show ?thesis
    unfolding agentNodes_paths a by (simp del: set_map set_filter)
qed

lemma no_outgoing_no_path:
  "s \<notin> source ` set es \<Longrightarrow> (s, x) \<notin> (edge_rel es)\<^sup>+"
  by (auto dest!: tranclD simp: edge_rel_def)

lemma agentModels_fold:
  "fold (\<lambda>node acc.
             case read_property tbl (node_id node) of
               Object model \<Rightarrow>
                 acc @ [\<lparr>agent_id = node_id node,
                         am_model_name = md_model_name model,
                         am_model_provider = provider model\<rparr>]
             | Undefined \<Rightarrow> acc
             | Null \<Rightarrow> acc) ns acc0
   = acc0 @ map (\<lambda>n. case read_property tbl (node_id n) of
                        Object model \<Rightarrow>
                          \<lparr>agent_id = node_id n,
                           am_model_name = md_model_name model,
                           am_model_provider = provider model\<rparr>)
         (filter (\<lambda>n. truthy (read_property tbl (node_id n))) ns)"
  by (induction ns arbitrary: acc0) (auto split: js_value.splits)

lemma agentModels_truthy_reads:
  "agentModels tbl ns =
     map (\<lambda>n. case read_property tbl (node_id n) of
                 Object model \<Rightarrow>
                   \<lparr>agent_id = node_id n,
                    am_model_name = md_model_name model,
                    am_model_provider = provider model\<rparr>)
         (filter (\<lambda>n. truthy (read_property tbl (node_id n))) ns)"
  by (simp add: agentModels_def agentModels_fold)

lemma agentModels_nothing_inherited:
  "\<forall>n \<in> set ns. inherited tbl (node_id n) = None
     \<Longrightarrow> agentModels tbl ns = spec_assignment_list tbl ns"
  unfolding agentModels_truthy_reads spec_assignment_list_def
  by (induction ns)
     (auto simp: read_property_def modelLookup_def split: option.splits js_value.splits)

section \<open>Claims\<close>

text \<open>
  C1. A node \<open>n\<close> of the input node list appears in the output node list if and only
  if its id is the start id or a directed path of edges leads from the start id to its
  id. As ids this holds for every input; as nodes it holds for a graph of the data
  model, whose node ids are unique (of two input nodes that share the start id only
  the first is put out).
\<close>

theorem included_iff_start_or_path:
  assumes "n \<in> set allNodes"
  shows "(node_id n \<in> node_id ` set (agentNodes allNodes allEdges s)
          \<longleftrightarrow> node_id n = s \<or> (s, node_id n) \<in> (edge_rel allEdges)\<^sup>+)
     \<and> (distinct (map node_id allNodes) \<longrightarrow>
          (n \<in> set (agentNodes allNodes allEdges s)
            \<longleftrightarrow> node_id n = s \<or> (s, node_id n) \<in> (edge_rel allEdges)\<^sup>+))"
proof (intro conjI impI)
  have i: "node_id n \<in> node_id ` set allNodes" using assms by simp
  show "node_id n \<in> node_id ` set (agentNodes allNodes allEdges s)
          \<longleftrightarrow> node_id n = s \<or> (s, node_id n) \<in> (edge_rel allEdges)\<^sup>+"
  proof
    assume "node_id n \<in> node_id ` set (agentNodes allNodes allEdges s)"
    then show "node_id n = s \<or> (s, node_id n) \<in> (edge_rel allEdges)\<^sup>+"
      by (rule output_id_is_start_or_reached)
  next
    assume "node_id n = s \<or> (s, node_id n) \<in> (edge_rel allEdges)\<^sup>+"
    then have "(s, node_id n) \<in> (edge_rel allEdges)\<^sup>*" by auto
    then show "node_id n \<in> node_id ` set (agentNodes allNodes allEdges s)"
      using i by (rule reached_id_in_output)
  qed
next
  assume "distinct (map node_id allNodes)"
  then show "n \<in> set (agentNodes allNodes allEdges s)
            \<longleftrightarrow> node_id n = s \<or> (s, node_id n) \<in> (edge_rel allEdges)\<^sup>+"
    using assms by (rule mem_agentNodes)
qed

theorem included_iff_start_or_path_witness:
  "distinct (map node_id [mk_node ''S'', mk_node ''A'', mk_node ''B'', mk_node ''C''])
   \<and> mk_node ''B'' \<in> set [mk_node ''S'', mk_node ''A'', mk_node ''B'', mk_node ''C'']
   \<and> mk_node ''B'' \<in> set (agentNodes [mk_node ''S'', mk_node ''A'', mk_node ''B'', mk_node ''C'']
          [mk_edge ''S'' ''A'', mk_edge ''A'' ''B'', mk_edge ''C'' ''S''] ''S'')
   \<and> (''S'', ''B'') \<in> (edge_rel [mk_edge ''S'' ''A'', mk_edge ''A'' ''B'', mk_edge ''C'' ''S''])\<^sup>+"
  using included_iff_start_or_path[of "mk_node ''B''"
      "[mk_node ''S'', mk_node ''A'', mk_node ''B'', mk_node ''C'']"
      "[mk_edge ''S'' ''A'', mk_edge ''A'' ''B'', mk_edge ''C'' ''S'']" "''S''"]
  by (simp add: run_defs)

text \<open>
  C2, as the code has it. An input edge is in the output edge list exactly when its
  source id and its target id are both the start id or reached from it by edges;
  whether a node carries such an id plays no part. When the start id and every edge
  target are ids of input nodes, both endpoints of every output edge are ids of output
  nodes.
\<close>

theorem output_edges_join_reached_ids:
  "(e \<in> set (validEdges allEdges s) \<longleftrightarrow>
      e \<in> set allEdges \<and> (s, source e) \<in> (edge_rel allEdges)\<^sup>*
        \<and> (s, target e) \<in> (edge_rel allEdges)\<^sup>*)
   \<and> (s \<in> node_id ` set allNodes \<and> target ` set allEdges \<subseteq> node_id ` set allNodes
        \<and> e \<in> set (validEdges allEdges s)
      \<longrightarrow> source e \<in> node_id ` set (agentNodes allNodes allEdges s)
        \<and> target e \<in> node_id ` set (agentNodes allNodes allEdges s))"
proof (intro conjI impI)
  show "e \<in> set (validEdges allEdges s) \<longleftrightarrow>
      e \<in> set allEdges \<and> (s, source e) \<in> (edge_rel allEdges)\<^sup>*
        \<and> (s, target e) \<in> (edge_rel allEdges)\<^sup>*"
    by (simp add: validEdges_paths)
next
  assume a: "s \<in> node_id ` set allNodes \<and> target ` set allEdges \<subseteq> node_id ` set allNodes
        \<and> e \<in> set (validEdges allEdges s)"
  then have r: "(s, source e) \<in> (edge_rel allEdges)\<^sup>*" "(s, target e) \<in> (edge_rel allEdges)\<^sup>*"
    by (simp_all add: validEdges_paths)
  have "source e \<in> node_id ` set allNodes"
    using reached_is_start_or_target[OF r(1)] a by blast
  then show "source e \<in> node_id ` set (agentNodes allNodes allEdges s)"
    using r(1) by (rule reached_id_in_output[rotated])
  have "target e \<in> node_id ` set allNodes"
    using reached_is_start_or_target[OF r(2)] a by blast
  then show "target e \<in> node_id ` set (agentNodes allNodes allEdges s)"
    using r(2) by (rule reached_id_in_output[rotated])
qed

theorem output_edges_join_reached_ids_witness:
  "''S'' \<in> node_id ` set [mk_node ''S'', mk_node ''A'', mk_node ''B'']
   \<and> target ` set [mk_edge ''S'' ''A'', mk_edge ''B'' ''A'']
        \<subseteq> node_id ` set [mk_node ''S'', mk_node ''A'', mk_node ''B'']
   \<and> mk_edge ''S'' ''A'' \<in> set (validEdges [mk_edge ''S'' ''A'', mk_edge ''B'' ''A''] ''S'')
   \<and> source (mk_edge ''S'' ''A'')
        \<in> node_id ` set (agentNodes [mk_node ''S'', mk_node ''A'', mk_node ''B'']
              [mk_edge ''S'' ''A'', mk_edge ''B'' ''A''] ''S'')
   \<and> target (mk_edge ''S'' ''A'')
        \<in> node_id ` set (agentNodes [mk_node ''S'', mk_node ''A'', mk_node ''B'']
              [mk_edge ''S'' ''A'', mk_edge ''B'' ''A''] ''S'')
   \<and> (''S'', ''A'') \<in> (edge_rel [mk_edge ''S'' ''A'', mk_edge ''B'' ''A''])\<^sup>*"
  using output_edges_join_reached_ids[of "mk_edge ''S'' ''A''"
      "[mk_edge ''S'' ''A'', mk_edge ''B'' ''A'']" "''S''"
      "[mk_node ''S'', mk_node ''A'', mk_node ''B'']"]
  by (simp add: run_defs)

text \<open>
  C2 as stated fails: with the single node \<open>S\<close> and the edge from \<open>S\<close> to the id
  \<open>X\<close> of no node, the edge is put out and its target is the id of no output node.
\<close>

theorem output_edge_endpoints_counterexample:
  "validEdges [mk_edge ''S'' ''X''] ''S'' = [mk_edge ''S'' ''X'']
   \<and> agentNodes [mk_node ''S''] [mk_edge ''S'' ''X''] ''S'' = [mk_node ''S'']
   \<and> target (mk_edge ''S'' ''X'')
       \<notin> node_id ` set (agentNodes [mk_node ''S''] [mk_edge ''S'' ''X''] ''S'')"
  by (simp add: run_defs)

text \<open>
  C3. The output node list is the start node, when the input node list has it, followed
  by the remaining nodes that a path of edges from the start id reaches, in the order of
  the input node list; the output edge list is the input edge list, in its order,
  filtered to the edges whose source id and target id are both the start id or reached
  from it.
\<close>

theorem output_order_is_input_order:
  "agentNodes allNodes allEdges s =
     (case find (\<lambda>n. node_id n = s) allNodes of Some n \<Rightarrow> [n] | None \<Rightarrow> [])
     @ filter (\<lambda>n. node_id n \<noteq> s \<and> (s, node_id n) \<in> (edge_rel allEdges)\<^sup>+) allNodes
   \<and> validEdges allEdges s =
     filter (\<lambda>e. (s, source e) \<in> (edge_rel allEdges)\<^sup>* \<and> (s, target e) \<in> (edge_rel allEdges)\<^sup>*)
       allEdges"
  using agentNodes_paths validEdges_paths by blast

text \<open>
  C4, as the code has it. The node list of the request is the start node, when the
  input has it, followed by the reachable nodes in the order of the input node list,
  each reduced to id, type, data and position.
\<close>

theorem request_nodes_input_order:
  "graph_nodes (runRequest allNodes allEdges s tbl) =
     map to_graph_node
       ((case find (\<lambda>n. node_id n = s) allNodes of Some n \<Rightarrow> [n] | None \<Rightarrow> [])
        @ filter (\<lambda>n. node_id n \<noteq> s \<and> (s, node_id n) \<in> (edge_rel allEdges)\<^sup>+) allNodes)"
  by (simp add: runRequest_def agentNodes_paths)

text \<open>
  C4 as stated fails: with the nodes \<open>S, A, B\<close> and the edges \<open>S \<rightarrow> B\<close>, \<open>S \<rightarrow> A\<close> the
  traversal discovers \<open>B\<close> before \<open>A\<close>, and the request lists \<open>S, A, B\<close>.
\<close>

theorem request_nodes_discovery_order_counterexample:
  "map gn_id (graph_nodes (runRequest [mk_node ''S'', mk_node ''A'', mk_node ''B'']
       [mk_edge ''S'' ''B'', mk_edge ''S'' ''A''] ''S'' (plain_object Map.empty)))
     = [''S'', ''A'', ''B'']
   \<and> map node_id (spec_discovery_order_nodes [mk_node ''S'', mk_node ''A'', mk_node ''B'']
       [mk_edge ''S'' ''B'', mk_edge ''S'' ''A''] ''S'')
     = [''S'', ''B'', ''A'']
   \<and> graph_nodes (runRequest [mk_node ''S'', mk_node ''A'', mk_node ''B'']
       [mk_edge ''S'' ''B'', mk_edge ''S'' ''A''] ''S'' (plain_object Map.empty))
     \<noteq> map to_graph_node (spec_discovery_order_nodes [mk_node ''S'', mk_node ''A'', mk_node ''B'']
       [mk_edge ''S'' ''B'', mk_edge ''S'' ''A''] ''S'')"
  by (simp add: runRequest_def to_graph_node_def spec_discovery_order_nodes_def run_defs)

text \<open>
  C5. When the start id is the id of no input node, no start node is found and none is
  put out, the traversal still visits exactly the ids that edges reach from the start
  id, and the output node list is the input node list filtered to the nodes reached;
  when moreover no edge has the start id as its source, the output node list and the
  output edge list are empty.
\<close>

theorem start_absent_from_nodes:
  assumes "s \<notin> node_id ` set allNodes"
  shows "startNode allNodes s = None
     \<and> s \<notin> node_id ` set (agentNodes allNodes allEdges s)
     \<and> set (visited (traversal allEdges s)) = (edge_rel allEdges)\<^sup>* `` {s}
     \<and> agentNodes allNodes allEdges s
         = filter (\<lambda>n. (s, node_id n) \<in> (edge_rel allEdges)\<^sup>+) allNodes
     \<and> (s \<notin> source ` set allEdges
          \<longrightarrow> agentNodes allNodes allEdges s = [] \<and> validEdges allEdges s = [])"
proof -
  have f: "find (\<lambda>n. node_id n = s) allNodes = None"
    using assms by (auto simp: find_None_iff)
  have a: "agentNodes allNodes allEdges s
         = filter (\<lambda>n. (s, node_id n) \<in> (edge_rel allEdges)\<^sup>+) allNodes"
    unfolding agentNodes_paths f using assms by (auto intro: filter_cong)
  have e: "agentNodes allNodes allEdges s = [] \<and> validEdges allEdges s = []"
    if n: "s \<notin> source ` set allEdges"
  proof
    show "agentNodes allNodes allEdges s = []"
      unfolding a using no_outgoing_no_path[OF n] by simp
    have "\<not> ((s, source e) \<in> (edge_rel allEdges)\<^sup>* \<and> (s, target e) \<in> (edge_rel allEdges)\<^sup>*)"
      if "e \<in> set allEdges" for e
      using that n no_outgoing_no_path[OF n, of "source e"]
      by (auto simp: rtrancl_eq_or_trancl)
    then show "validEdges allEdges s = []"
      unfolding validEdges_paths by (simp add: filter_empty_conv)
  qed
  have m: "s \<notin> node_id ` set (agentNodes allNodes allEdges s)"
    unfolding a using assms by auto
  show ?thesis
    using f a e m by (simp add: startNode_def traversal_visited)
qed

theorem start_absent_from_nodes_witness:
  "''missing'' \<notin> node_id ` set [mk_node ''A'', mk_node ''B'']
   \<and> ''missing'' \<notin> source ` set [mk_edge ''A'' ''B'']
   \<and> agentNodes [mk_node ''A'', mk_node ''B''] [mk_edge ''A'' ''B''] ''missing'' = []
   \<and> validEdges [mk_edge ''A'' ''B''] ''missing'' = []"
proof -
  have 1: "''missing'' \<notin> node_id ` set [mk_node ''A'', mk_node ''B'']"
    by (simp add: mk_node_def)
  have 2: "''missing'' \<notin> source ` set [mk_edge ''A'' ''B'']"
    by (simp add: mk_edge_def)
  from start_absent_from_nodes[OF 1, of "[mk_edge ''A'' ''B'']"] 2
  have "agentNodes [mk_node ''A'', mk_node ''B''] [mk_edge ''A'' ''B''] ''missing'' = []
      \<and> validEdges [mk_edge ''A'' ''B''] ''missing'' = []"
    by blast
  with 1 2 show ?thesis by blast
qed

text \<open>
  C6. The traversal terminates on every edge list, with self-loops and cycles: the first
  call of \<open>dfs\<close> is in the accessible part of the call relation. The start id occurs
  exactly once among the ids of the output nodes when the input has a node for it, and
  in a graph of the data model (unique node ids) the output ids are distinct and every
  input node that is the start node or reached from it occurs exactly once.
\<close>

theorem traversal_terminates_nodes_once:
  "dfs_dfs_for_dom (Inl (allEdges, s, \<lparr>visited = [], reachableNodes = []\<rparr>, s))
   \<and> (s \<in> node_id ` set allNodes
        \<longrightarrow> count_list (map node_id (agentNodes allNodes allEdges s)) s = 1)
   \<and> (distinct (map node_id allNodes) \<longrightarrow>
        distinct (map node_id (agentNodes allNodes allEdges s))
        \<and> (\<forall>n \<in> set allNodes.
              node_id n = s \<or> (s, node_id n) \<in> (edge_rel allEdges)\<^sup>+
              \<longrightarrow> count_list (agentNodes allNodes allEdges s) n = 1))"
proof (intro conjI ballI impI)
  show "dfs_dfs_for_dom (Inl (allEdges, s, \<lparr>visited = [], reachableNodes = []\<rparr>, s))"
    by (rule dfs_dom)
  show "count_list (map node_id (agentNodes allNodes allEdges s)) s = 1"
    if "s \<in> node_id ` set allNodes"
    using that by (rule start_id_once)
next
  assume u: "distinct (map node_id allNodes)"
  then show d: "distinct (map node_id (agentNodes allNodes allEdges s))"
    by (rule agentNodes_ids_distinct)
  fix n
  assume "n \<in> set allNodes"
    and "node_id n = s \<or> (s, node_id n) \<in> (edge_rel allEdges)\<^sup>+"
  then have "n \<in> set (agentNodes allNodes allEdges s)"
    using mem_agentNodes[OF u] by blast
  moreover have "distinct (agentNodes allNodes allEdges s)"
    using d by (simp add: distinct_map)
  ultimately show "count_list (agentNodes allNodes allEdges s) n = 1"
    by (simp add: count_list_distinct)
qed

theorem traversal_terminates_nodes_once_witness:
  "distinct (map node_id [mk_node ''S'', mk_node ''A'', mk_node ''B''])
   \<and> ''S'' \<in> node_id ` set [mk_node ''S'', mk_node ''A'', mk_node ''B'']
   \<and> dfs_dfs_for_dom (Inl ([mk_edge ''S'' ''S'', mk_edge ''S'' ''A'', mk_edge ''A'' ''B'',
          mk_edge ''B'' ''A''], ''S'', \<lparr>visited = [], reachableNodes = []\<rparr>, ''S''))
   \<and> agentNodes [mk_node ''S'', mk_node ''A'', mk_node ''B'']
        [mk_edge ''S'' ''S'', mk_edge ''S'' ''A'', mk_edge ''A'' ''B'', mk_edge ''B'' ''A''] ''S''
      = [mk_node ''S'', mk_node ''A'', mk_node ''B'']
   \<and> count_list (agentNodes [mk_node ''S'', mk_node ''A'', mk_node ''B'']
        [mk_edge ''S'' ''S'', mk_edge ''S'' ''A'', mk_edge ''A'' ''B'', mk_edge ''B'' ''A''] ''S'')
        (mk_node ''A'') = 1"
  using traversal_terminates_nodes_once[of
      "[mk_edge ''S'' ''S'', mk_edge ''S'' ''A'', mk_edge ''A'' ''B'', mk_edge ''B'' ''A'']" "''S''"
      "[mk_node ''S'', mk_node ''A'', mk_node ''B'']"]
  by (simp add: run_defs)

text \<open>
  C7, as the code has it. For every model table and every list of included nodes, the
  assignment list has, in the order of the node list, exactly one entry per node for
  which the read \<open>allAgentModels[node.id]\<close> gives an object, made of the node's id and
  that object's \<open>model_name\<close> and \<open>provider\<close>; a node for which the read gives
  \<open>undefined\<close> or \<open>null\<close> contributes no entry. The request carries this list for the
  included nodes. When no node id names a property that the table inherits, this is
  the list of the specification: one entry per node to which the table assigns a
  descriptor, with the descriptor's fields.
\<close>

theorem agent_models_one_entry_per_object_read:
  "agentModels tbl ns =
     map (\<lambda>n. case read_property tbl (node_id n) of
                 Object model \<Rightarrow>
                   \<lparr>agent_id = node_id n,
                    am_model_name = md_model_name model,
                    am_model_provider = provider model\<rparr>)
         (filter (\<lambda>n. truthy (read_property tbl (node_id n))) ns)
   \<and> agent_models (runRequest allNodes allEdges s tbl) =
       agentModels tbl (agentNodes allNodes allEdges s)
   \<and> ((\<forall>n \<in> set ns. inherited tbl (node_id n) = None)
        \<longrightarrow> agentModels tbl ns = spec_assignment_list tbl ns)"
proof (intro conjI impI)
  show "agentModels tbl ns =
     map (\<lambda>n. case read_property tbl (node_id n) of
                 Object model \<Rightarrow>
                   \<lparr>agent_id = node_id n,
                    am_model_name = md_model_name model,
                    am_model_provider = provider model\<rparr>)
         (filter (\<lambda>n. truthy (read_property tbl (node_id n))) ns)"
    by (rule agentModels_truthy_reads)
  show "agent_models (runRequest allNodes allEdges s tbl) =
       agentModels tbl (agentNodes allNodes allEdges s)"
    by (simp add: runRequest_def)
  show "agentModels tbl ns = spec_assignment_list tbl ns"
    if "\<forall>n \<in> set ns. inherited tbl (node_id n) = None"
    using that by (rule agentModels_nothing_inherited)
qed

theorem agent_models_one_entry_per_object_read_witness:
  "inherited (plain_object [''A'' \<mapsto>
         Object \<lparr>md_model_name = Some ''gpt-4o'', provider = Some ''OpenAI''\<rparr>]) ''S'' = None
   \<and> inherited (plain_object [''A'' \<mapsto>
         Object \<lparr>md_model_name = Some ''gpt-4o'', provider = Some ''OpenAI''\<rparr>]) ''A'' = None
   \<and> agentModels (plain_object [''A'' \<mapsto>
         Object \<lparr>md_model_name = Some ''gpt-4o'', provider = Some ''OpenAI''\<rparr>])
       [mk_node ''S'', mk_node ''A'']
     = [\<lparr>agent_id = ''A'', am_model_name = Some ''gpt-4o'', am_model_provider = Some ''OpenAI''\<rparr>]"
proof -
  let ?tbl = "plain_object [''A'' \<mapsto>
         Object \<lparr>md_model_name = Some ''gpt-4o'', provider = Some ''OpenAI''\<rparr>]"
  have 1: "\<forall>n \<in> set [mk_node ''S'', mk_node ''A'']. inherited ?tbl (node_id n) = None"
    by (simp add: plain_object_def Object_prototype_def mk_node_def)
  from agent_models_one_entry_per_object_read[of ?tbl "[mk_node ''S'', mk_node ''A'']"] 1
  have "agentModels ?tbl [mk_node ''S'', mk_node ''A'']
      = spec_assignment_list ?tbl [mk_node ''S'', mk_node ''A'']"
    by blast
  also have "\<dots> = [\<lparr>agent_id = ''A'', am_model_name = Some ''gpt-4o'',
      am_model_provider = Some ''OpenAI''\<rparr>]"
    by (simp add: spec_assignment_list_def modelLookup_def plain_object_def mk_node_def)
  finally show ?thesis using 1 by (simp add: mk_node_def)
qed

text \<open>
  C7 as stated fails: the empty object literal assigns nothing to the node id
  \<open>constructor\<close>, so the lookup of the specification returns nothing for it, but the
  read gives the inherited function, and the node gets an entry with \<open>model_name\<close> and
  \<open>model_provider\<close> undefined.
\<close>

theorem assignment_list_inherited_property_counterexample:
  "modelLookup (plain_object Map.empty) ''constructor'' = None
   \<and> spec_assignment_list (plain_object Map.empty) [mk_node ''constructor''] = []
   \<and> agentModels (plain_object Map.empty) [mk_node ''constructor'']
     = [\<lparr>agent_id = ''constructor'', am_model_name = None, am_model_provider = None\<rparr>]
   \<and> agentModels (plain_object Map.empty) [mk_node ''constructor'']
     \<noteq> spec_assignment_list (plain_object Map.empty) [mk_node ''constructor'']"
  by (simp add: agentModels_def spec_assignment_list_def modelLookup_def read_property_def
      plain_object_def Object_prototype_def mk_node_def)

text \<open>
  C8. An id \<open>t\<close> that is the start id or reached from it and is the id of no input node
  is still in the set of reachable ids (and in \<open>reachableNodes\<close> unless it is the
  start id) and is the id of no output node; every input edge that leaves \<open>t\<close> passes
  the edge filter, and unless \<open>t\<close> is the start id some output edge has target \<open>t\<close>.
  So there are inputs whose output edge list has an edge with an endpoint that matches
  no output node.
\<close>

theorem phantom_id_kept_in_edges:
  assumes r: "(s, t) \<in> (edge_rel allEdges)\<^sup>*" and t: "t \<notin> node_id ` set allNodes"
  shows "(t \<noteq> s \<longrightarrow> has (reachableNodes (traversal allEdges s)) t)
     \<and> has (reachableNodeIds allEdges s) t
     \<and> t \<notin> node_id ` set (agentNodes allNodes allEdges s)
     \<and> (\<forall>e \<in> set allEdges. source e = t \<longrightarrow> e \<in> set (validEdges allEdges s))
     \<and> (t \<noteq> s \<longrightarrow> (\<exists>e \<in> set (validEdges allEdges s). target e = t))"
proof (intro conjI ballI impI)
  show "has (reachableNodes (traversal allEdges s)) t" if "t \<noteq> s"
    using r that by (auto simp: has_reachableNodes rtrancl_eq_or_trancl)
  show "has (reachableNodeIds allEdges s) t"
    using r by (simp add: has_reachableNodeIds)
  have "set (agentNodes allNodes allEdges s) \<subseteq> set allNodes"
    by (auto simp: agentNodes_paths find_Some_iff find_Some_iff2 split: option.splits)
  then show "t \<notin> node_id ` set (agentNodes allNodes allEdges s)"
    using t by blast
next
  fix e assume e: "e \<in> set allEdges" "source e = t"
  then have "(t, target e) \<in> edge_rel allEdges" by (auto simp: edge_rel_def)
  then have "(s, target e) \<in> (edge_rel allEdges)\<^sup>*" using r by (rule rtrancl_into_rtrancl[rotated])
  then show "e \<in> set (validEdges allEdges s)"
    using e r by (simp add: validEdges_paths)
next
  assume "t \<noteq> s"
  then have "(s, t) \<in> (edge_rel allEdges)\<^sup>+" using r by (auto simp: rtrancl_eq_or_trancl)
  then obtain u where u: "(s, u) \<in> (edge_rel allEdges)\<^sup>*" "(u, t) \<in> edge_rel allEdges"
    by (blast dest: tranclD2)
  then obtain e where e: "e \<in> set allEdges" "source e = u" "target e = t"
    by (auto simp: edge_rel_def)
  then have "e \<in> set (validEdges allEdges s)"
    using u r by (simp add: validEdges_paths)
  then show "\<exists>e \<in> set (validEdges allEdges s). target e = t" using e by blast
qed

theorem phantom_id_kept_in_edges_witness:
  "''X'' \<notin> node_id ` set [mk_node ''S'']
   \<and> has (reachableNodes (traversal [mk_edge ''S'' ''X''] ''S'')) ''X''
   \<and> mk_edge ''S'' ''X'' \<in> set (validEdges [mk_edge ''S'' ''X''] ''S'')
   \<and> target (mk_edge ''S'' ''X'')
        \<notin> node_id ` set (agentNodes [mk_node ''S''] [mk_edge ''S'' ''X''] ''S'')
   \<and> (''S'', ''X'') \<in> (edge_rel [mk_edge ''S'' ''X''])\<^sup>*"
proof -
  have 1: "(''S'', ''X'') \<in> (edge_rel [mk_edge ''S'' ''X''])\<^sup>*"
    by (rule r_into_rtrancl) (simp add: edge_rel_def mk_edge_def)
  have 2: "''X'' \<notin> node_id ` set [mk_node ''S'']"
    by (simp add: mk_node_def)
  from phantom_id_kept_in_edges[OF 1 2]
  have "has (reachableNodes (traversal [mk_edge ''S'' ''X''] ''S'')) ''X''"
    and "''X'' \<notin> node_id ` set (agentNodes [mk_node ''S''] [mk_edge ''S'' ''X''] ''S'')"
    and "\<exists>e \<in> set (validEdges [mk_edge ''S'' ''X''] ''S''). target e = ''X''"
    by simp_all
  moreover have "set (validEdges [mk_edge ''S'' ''X''] ''S'') \<subseteq> {mk_edge ''S'' ''X''}"
    by (auto simp: validEdges_def)
  ultimately show ?thesis using 1 2 by (auto simp: mk_edge_def)
qed

text \<open>
  C9. The request that \<open>handlePlay\<close> hands to the runner is a function of the nodes,
  the edges, the start id and the model lookup alone: two runs that agree on these,
  whatever the panel showed and whatever was dispatched before, hand over equal
  requests; and the run leaves the node list and the edge list as they were.
\<close>

theorem handlePlay_request_depends_on_inputs_only:
  assumes "getNodes w = getNodes w'" and "getEdges w = getEdges w'"
    and "getAllAgentModels w flowId = getAllAgentModels w' flowId'"
  shows "last (runFlow_calls (handlePlay s flowId w))
           = last (runFlow_calls (handlePlay s flowId' w'))
     \<and> runFlow_calls (handlePlay s flowId w)
           = runFlow_calls w @ [runRequest (getNodes w) (getEdges w) s (getAllAgentModels w flowId)]
     \<and> getNodes (handlePlay s flowId w) = getNodes w
     \<and> getEdges (handlePlay s flowId w) = getEdges w"
  using assms
  by (simp add: handlePlay_def runFlow_def Let_def setBottomPanelTab_def expandBottomPanel_def
      getNodes_def getEdges_def getAllAgentModels_def)

theorem handlePlay_request_depends_on_inputs_only_witness:
  "last (runFlow_calls (handlePlay ''S'' None
       \<lparr>flow_nodes = [mk_node ''S'', mk_node ''A''], flow_edges = [mk_edge ''S'' ''A''],
        flow_agent_models = (\<lambda>f. plain_object Map.empty), bottomPanelExpanded = False,
        bottomPanelTab = ''log'', runFlow_calls = []\<rparr>))
   = last (runFlow_calls (handlePlay ''S'' (Some ''7'')
       \<lparr>flow_nodes = [mk_node ''S'', mk_node ''A''], flow_edges = [mk_edge ''S'' ''A''],
        flow_agent_models = (\<lambda>f. plain_object Map.empty), bottomPanelExpanded = True,
        bottomPanelTab = ''output'',
        runFlow_calls = [runRequest [] [] ''S'' (plain_object Map.empty)]\<rparr>))
   \<and> getNodes (handlePlay ''S'' None
       \<lparr>flow_nodes = [mk_node ''S'', mk_node ''A''], flow_edges = [mk_edge ''S'' ''A''],
        flow_agent_models = (\<lambda>f. plain_object Map.empty), bottomPanelExpanded = False,
        bottomPanelTab = ''log'', runFlow_calls = []\<rparr>) = [mk_node ''S'', mk_node ''A'']"
proof -
  let ?w = "\<lparr>flow_nodes = [mk_node ''S'', mk_node ''A''], flow_edges = [mk_edge ''S'' ''A''],
        flow_agent_models = (\<lambda>f. plain_object Map.empty), bottomPanelExpanded = False,
        bottomPanelTab = ''log'', runFlow_calls = []\<rparr>"
  let ?w' = "\<lparr>flow_nodes = [mk_node ''S'', mk_node ''A''], flow_edges = [mk_edge ''S'' ''A''],
        flow_agent_models = (\<lambda>f. plain_object Map.empty), bottomPanelExpanded = True,
        bottomPanelTab = ''output'',
        runFlow_calls = [runRequest [] [] ''S'' (plain_object Map.empty)]\<rparr>"
  have 1: "getNodes ?w = getNodes ?w'" by (simp add: getNodes_def)
  have 2: "getEdges ?w = getEdges ?w'" by (simp add: getEdges_def)
  have 3: "getAllAgentModels ?w None = getAllAgentModels ?w' (Some ''7'')"
    by (simp add: getAllAgentModels_def)
  have 4: "getNodes ?w = [mk_node ''S'', mk_node ''A'']" by (simp add: getNodes_def)
  note t = handlePlay_request_depends_on_inputs_only[OF 1 2 3, of "''S''"]
  have a: "last (runFlow_calls (handlePlay ''S'' None ?w))
      = last (runFlow_calls (handlePlay ''S'' (Some ''7'') ?w'))"
    using t by blast
  have b: "getNodes (handlePlay ''S'' None ?w) = getNodes ?w"
    using t by blast
  show ?thesis
  proof (intro conjI)
    show "last (runFlow_calls (handlePlay ''S'' None ?w))
      = last (runFlow_calls (handlePlay ''S'' (Some ''7'') ?w'))" by (rule a)
    show "getNodes (handlePlay ''S'' None ?w) = [mk_node ''S'', mk_node ''A'']"
      using b 4 by (rule trans)
  qed
qed

text \<open>
  C10. Whatever the graph and the model assignments are, the request has an empty ticker
  list and both global model fields unset, and so has the request that \<open>handlePlay\<close>
  hands to the runner.
\<close>

theorem request_tickers_empty_global_model_unset:
  "tickers (runRequest allNodes allEdges s tbl) = []
   \<and> model_name (runRequest allNodes allEdges s tbl) = None
   \<and> model_provider (runRequest allNodes allEdges s tbl) = None
   \<and> map tickers (runFlow_calls (handlePlay s flowId w)) = map tickers (runFlow_calls w) @ [[]]
   \<and> map model_name (runFlow_calls (handlePlay s flowId w)) = map model_name (runFlow_calls w) @ [None]
   \<and> map model_provider (runFlow_calls (handlePlay s flowId w))
       = map model_provider (runFlow_calls w) @ [None]"
  by (simp add: runRequest_def handlePlay_def runFlow_def Let_def
      setBottomPanelTab_def expandBottomPanel_def)

end
